theory Spec2Isabelle
  imports Main "HOL-Library.Word" "HOL-Library.Signed_Division"
begin

section \<open>The contest template \<^verbatim>\<open>content/contest/template.cpp\<close>\<close>

text \<open>
  The file is one translation unit: typing macros, the alias \<^verbatim>\<open>ordered_set\<close> of the
  GNU policy-based tree, the \<^verbatim>\<open>debug\<close> macro with its \<^verbatim>\<open>_print\<close> overloads, the
  generator \<^verbatim>\<open>rng\<close> with \<^verbatim>\<open>randInt\<close>, \<^verbatim>\<open>gcd\<close> and \<^verbatim>\<open>lcm\<close>, the empty \<^verbatim>\<open>solve\<close>
  and \<^verbatim>\<open>main\<close>. Line 12 redefines \<^verbatim>\<open>int\<close> as \<^verbatim>\<open>long long\<close>, so every \<^verbatim>\<open>int\<close> below
  line 12 is a 64-bit two's complement integer.
\<close>

subsection \<open>Machine integers\<close>

text \<open>
  \<^verbatim>\<open>#define int long long\<close> (line 12). A value is a 64-bit word, read as signed by
  \<open>sint\<close>; comparisons are the signed ones (\<open><s\<close>, \<open>\<le>s\<close>). Multiplication wraps
  around, as the x86-64 target selected in line 3 computes it. Division and remainder
  truncate towards zero (\<open>sdiv\<close> and \<open>smod\<close> on \<open>int\<close>); a zero divisor and the
  quotient \<^verbatim>\<open>LLONG_MIN / -1\<close> have no defined result and raise the processor's divide
  error, which is the value \<open>Inl DivideError\<close> here.
\<close>

type_synonym ll = "64 word"

datatype fault = DivideError

definition LLONG_MIN :: ll where
  "LLONG_MIN = - (2 ^ 63)"

definition ll_div :: "ll \<Rightarrow> ll \<Rightarrow> fault + ll" where
  "ll_div a b = (if b = 0 \<or> (a = LLONG_MIN \<and> b = - 1) then Inl DivideError
                 else Inr (word_of_int (sint a sdiv sint b)))"

definition ll_rem :: "ll \<Rightarrow> ll \<Rightarrow> fault + ll" where
  "ll_rem a b = (if b = 0 \<or> (a = LLONG_MIN \<and> b = - 1) then Inl DivideError
                 else Inr (word_of_int (sint a smod sint b)))"

subsection \<open>gcd and lcm (lines 93 and 94)\<close>

text \<open>
  \<^verbatim>\<open>int gcd(int a, int b) { return b == 0 ? a : gcd(b, a % b); }\<close>

  The recursion is not structural. Its measure is the absolute value of the second
  argument, which the truncating remainder makes smaller for every divisor other than
  zero, whatever the signs.
\<close>

function gcd_ll :: "ll \<Rightarrow> ll \<Rightarrow> fault + ll" where
  "gcd_ll a b = (if b = 0 then Inr a
                 else case ll_rem a b of Inl e \<Rightarrow> Inl e | Inr m \<Rightarrow> gcd_ll b m)"
  by pat_completeness auto
termination
proof (relation "measure (\<lambda>(a, b). nat \<bar>sint b\<bar>)")
  show "wf (measure (\<lambda>(a, b). nat \<bar>sint b\<bar>))" by simp
next
  fix a b m :: ll
  assume b: "b \<noteq> 0" and r: "ll_rem a b = Inr m"
  from r have m: "m = word_of_int (sint a smod sint b)"
    by (auto simp: ll_rem_def split: if_splits)
  have rng: "sint a smod sint b \<in> {- \<bar>sint b\<bar> + 1..\<bar>sint b\<bar> - 1}"
    by (rule smod_int_range) (use b in \<open>simp add: signed_eq_0_iff\<close>)
  have "- (2 ^ 63) \<le> sint b" "sint b < 2 ^ 63"
    using sint_ge [of b] sint_lt [of b] by simp_all
  with rng have "- (2 ^ 63) \<le> sint a smod sint b" "sint a smod sint b < 2 ^ 63"
    by auto
  then have "sint m = sint a smod sint b"
    unfolding m by (simp add: signed_of_int signed_take_bit_int_eq_self)
  with rng have "\<bar>sint m\<bar> < \<bar>sint b\<bar>" by auto
  then show "((b, m), (a, b)) \<in> measure (\<lambda>(a, b). nat \<bar>sint b\<bar>)" by simp
qed

declare gcd_ll.simps [simp del]

text \<open>
  \<^verbatim>\<open>int lcm(int a, int b) { return (a / gcd(a, b)) * b; }\<close>

  The quotient is taken first and the product second; the product is the machine's.
\<close>

definition lcm_ll :: "ll \<Rightarrow> ll \<Rightarrow> fault + ll" where
  "lcm_ll a b = (case gcd_ll a b of Inl e \<Rightarrow> Inl e
                 | Inr g \<Rightarrow> (case ll_div a g of Inl e \<Rightarrow> Inl e | Inr q \<Rightarrow> Inr (q * b)))"

text \<open>
  The same body as \<open>gcd_ll\<close>, run with a bound on the depth of the recursion:
  \<open>None\<close> says that the bound was reached before the recursion ended. It assumes
  nothing about termination, so it is the place to state it.
\<close>

fun gcd_fuel :: "nat \<Rightarrow> ll \<Rightarrow> ll \<Rightarrow> (fault + ll) option" where
  "gcd_fuel 0 a b = None"
| "gcd_fuel (Suc n) a b =
     (if b = 0 then Some (Inr a)
      else case ll_rem a b of Inl e \<Rightarrow> Some (Inl e) | Inr m \<Rightarrow> gcd_fuel n b m)"


subsection \<open>The ordered set (lines 25 to 38)\<close>

text \<open>
  \<^verbatim>\<open>template <typename T> using ordered_set = tree<T, null_type, less<T>, rb_tree_tag,
  tree_order_statistics_node_update>;\<close>

  The alias instantiates the policy-based tree of the GNU C++ library: a set (no mapped
  value) ordered by \<^verbatim>\<open>less<T>\<close>, kept as a red-black tree whose nodes carry the size of
  their subtree. The comment above the alias names the two queries: \<^verbatim>\<open>order_of_key(k)\<close>,
  the number of elements strictly less than \<open>k\<close>, and \<^verbatim>\<open>find_by_order(k)\<close>, an
  iterator to the \<open>k\<close>-th element, counting from 0. The library itself is not part of
  the repository, so the container is modelled from what the specification says of it.
\<close>

text \<open>
  Modelled from the spec: the node colours of the red-black tree behind
  \<^verbatim>\<open>rb_tree_tag\<close>; the library header is not in the repository.
\<close>

datatype colour = Red | Black

text \<open>
  Modelled from the spec: the container \<^verbatim>\<open>__gnu_pbds::tree\<close>, which is not in the
  repository, as "a standard augmented balanced binary search tree". A node holds its
  colour, its left subtree, its key, the size annotation of its subtree and its right
  subtree; \<open>Null\<close> is the empty tree.
\<close>

datatype 'a ordered_set =
    Null
  | Node colour "'a ordered_set" 'a nat "'a ordered_set"

text \<open>
  Modelled from the spec: the "subtree-size annotation" read off a node of the absent
  library tree; an empty subtree counts 0.
\<close>

fun metadata :: "'a ordered_set \<Rightarrow> nat" where
  "metadata Null = 0"
| "metadata (Node c l k n r) = n"

text \<open>
  Modelled from the spec: the node update of the absent library
  (\<^verbatim>\<open>tree_order_statistics_node_update\<close>), which keeps the "subtree-size annotations
  consistent": a node built over two subtrees is annotated with their sizes plus one.
\<close>

definition node :: "colour \<Rightarrow> 'a ordered_set \<Rightarrow> 'a \<Rightarrow> 'a ordered_set \<Rightarrow> 'a ordered_set" where
  "node c l k r = Node c l k (metadata l + 1 + metadata r) r"

text \<open>
  Modelled from the spec: the rebalancing of the absent library's "balanced" tree after
  an insertion into the left subtree of a black node. A red child with a red child is
  rotated away and every node built is annotated anew.
\<close>

fun fix_left :: "'a ordered_set \<Rightarrow> 'a \<Rightarrow> 'a ordered_set \<Rightarrow> 'a ordered_set" where
  "fix_left (Node Red (Node Red t1 x m t2) y n t3) z t4 =
     node Red (node Black t1 x t2) y (node Black t3 z t4)"
| "fix_left (Node Red t1 x m (Node Red t2 y n t3)) z t4 =
     node Red (node Black t1 x t2) y (node Black t3 z t4)"
| "fix_left l z r = node Black l z r"

text \<open>
  Modelled from the spec: the mirror image of \<open>fix_left\<close>, after an insertion into the
  right subtree, for the absent library tree.
\<close>

fun fix_right :: "'a ordered_set \<Rightarrow> 'a \<Rightarrow> 'a ordered_set \<Rightarrow> 'a ordered_set" where
  "fix_right t1 x (Node Red (Node Red t2 y m t3) z n t4) =
     node Red (node Black t1 x t2) y (node Black t3 z t4)"
| "fix_right t1 x (Node Red t2 y m (Node Red t3 z n t4)) =
     node Red (node Black t1 x t2) y (node Black t3 z t4)"
| "fix_right l x r = node Black l x r"

text \<open>
  Modelled from the spec: insertion into the absent library tree, by descent with the
  comparison \<^verbatim>\<open>less<T>\<close> alone. "Keys unique": a key neither below nor above the one
  at a node is already present and the tree is left as it is.
\<close>

fun insert_rec :: "'a::linorder \<Rightarrow> 'a ordered_set \<Rightarrow> 'a ordered_set" where
  "insert_rec e Null = node Red Null e Null"
| "insert_rec e (Node Black l k n r) =
     (if e < k then fix_left (insert_rec e l) k r
      else if k < e then fix_right l k (insert_rec e r)
      else Node Black l k n r)"
| "insert_rec e (Node Red l k n r) =
     (if e < k then node Red (insert_rec e l) k r
      else if k < e then node Red l k (insert_rec e r)
      else Node Red l k n r)"

text \<open>
  Modelled from the spec: the root of the absent library's red-black tree is black.
\<close>

fun blacken :: "'a ordered_set \<Rightarrow> 'a ordered_set" where
  "blacken Null = Null"
| "blacken (Node c l k n r) = Node Black l k n r"

text \<open>
  Modelled from the spec: the member \<^verbatim>\<open>insert\<close> of the absent library container.
\<close>

definition insert_key :: "'a::linorder \<Rightarrow> 'a ordered_set \<Rightarrow> 'a ordered_set" where
  "insert_key e s = blacken (insert_rec e s)"

text \<open>
  Modelled from the spec: "inserting elements \<open>e1..en\<close>", one call of the absent
  library's \<^verbatim>\<open>insert\<close> after the other, from left to right.
\<close>

fun insert_all :: "'a::linorder list \<Rightarrow> 'a ordered_set \<Rightarrow> 'a ordered_set" where
  "insert_all [] s = s"
| "insert_all (e # es) s = insert_all es (insert_key e s)"

text \<open>
  Modelled from the spec: the rank query \<^verbatim>\<open>order_of_key\<close> of the absent library, as
  the specification has it "in logarithmic time": one descent from the root that adds
  up the annotations of the left subtrees it passes, not a count over the elements.
\<close>

fun order_of_key :: "'a::linorder \<Rightarrow> 'a ordered_set \<Rightarrow> nat" where
  "order_of_key key Null = 0"
| "order_of_key key (Node c l k n r) =
     (if key < k then order_of_key key l
      else if k < key then metadata l + 1 + order_of_key key r
      else metadata l)"

text \<open>
  Modelled from the spec: the selection query \<^verbatim>\<open>find_by_order\<close> of the absent library,
  again one descent steered by the annotations. The library returns an iterator;
  \<open>None\<close> is the end iterator, returned when the order is not below the size.
\<close>

fun find_by_order :: "nat \<Rightarrow> 'a ordered_set \<Rightarrow> 'a option" where
  "find_by_order ord Null = None"
| "find_by_order ord (Node c l k n r) =
     (if ord = metadata l then Some k
      else if ord < metadata l then find_by_order ord l
      else find_by_order (ord - (metadata l + 1)) r)"

text \<open>
  Modelled from the spec: the "in-order traversal" of the absent library tree, that is
  the sequence an iteration over the container visits.
\<close>

fun inorder :: "'a ordered_set \<Rightarrow> 'a list" where
  "inorder Null = []"
| "inorder (Node c l k n r) = inorder l @ k # inorder r"

text \<open>
  Modelled from the spec: the invariant "subtree-size annotations kept consistent" of
  the absent library tree: every annotation is the number of keys below and at its node.
\<close>

fun sized :: "'a ordered_set \<Rightarrow> bool" where
  "sized Null = True"
| "sized (Node c l k n r) =
     (sized l \<and> sized r \<and> n = length (inorder l) + 1 + length (inorder r))"

subsection \<open>The debug macro and its printers (lines 40 to 79)\<close>

text \<open>
  The build flag \<^verbatim>\<open>ONLINE_JUDGE\<close> is either defined, in a judge's build, or not, in a
  local build.
\<close>

datatype build = Local | OnlineJudge

text \<open>
  The values the overloads of \<^verbatim>\<open>_print\<close> accept: \<^verbatim>\<open>int\<close> (which is \<^verbatim>\<open>long long\<close>),
  \<^verbatim>\<open>string\<close>, \<^verbatim>\<open>char\<close>, \<^verbatim>\<open>bool\<close>, and pairs, vectors, sets and maps of such values.
  A set and a map are given by their elements in iteration order.
\<close>

datatype val =
    VInt ll
  | VString string
  | VChar char
  | VBool bool
  | VPair val val
  | VVector "val list"
  | VSet "val list"
  | VMap "(val \<times> val) list"

text \<open>The decimal text that \<^verbatim>\<open>cerr << x\<close> writes for a \<^verbatim>\<open>long long\<close>.\<close>

definition digit :: "nat \<Rightarrow> char" where
  "digit d = ''0123456789'' ! d"

function dec_nat :: "nat \<Rightarrow> string" where
  "dec_nat n = (if n < 10 then [digit n] else dec_nat (n div 10) @ [digit (n mod 10)])"
  by pat_completeness auto
termination
  by (relation "measure (\<lambda>n. n)") auto

declare dec_nat.simps [simp del]

definition dec_ll :: "ll \<Rightarrow> string" where
  "dec_ll x = (if x <s 0 then ''-'' @ dec_nat (nat (- sint x)) else dec_nat (nat (sint x)))"

text \<open>
  The overloads of \<^verbatim>\<open>_print\<close> (lines 47 to 79), as the text each one appends to the
  error stream. The overload for a map prints each entry through the one for a pair.
\<close>

fun print_cerr :: "val \<Rightarrow> string" where
  "print_cerr (VInt x) = dec_ll x"
| "print_cerr (VString x) = x"
| "print_cerr (VChar x) = [x]"
| "print_cerr (VBool x) = (if x then ''true'' else ''false'')"
| "print_cerr (VPair p q) = ''{'' @ print_cerr p @ '', '' @ print_cerr q @ ''}''"
| "print_cerr (VVector v) = ''[ '' @ concat (map (\<lambda>i. print_cerr i @ '' '') v) @ '']''"
| "print_cerr (VSet v) = ''{ '' @ concat (map (\<lambda>i. print_cerr i @ '' '') v) @ ''}''"
| "print_cerr (VMap v) =
     ''{ '' @ concat (map (\<lambda>(k, x). (''{'' @ print_cerr k @ '', '' @ print_cerr x @ ''}'') @ '' '') v)
      @ ''}''"

subsection \<open>The process: standard streams and what was written to them\<close>

text \<open>
  Where a standard stream is attached: the console it started with, a file after a
  successful \<^verbatim>\<open>freopen\<close>, or nothing at all after a failed one (which closes the
  stream; \<^verbatim>\<open>main\<close> does not look at the result).
\<close>

datatype target = Console | File string | Closed

text \<open>
  The state \<^verbatim>\<open>main\<close> acts on. \<open>cout_written\<close> and \<open>cerr_written\<close> are the characters
  the program has written to standard output and standard error. \<open>solve_calls\<close> is a
  counter of the model, not of the program: it counts the entries into \<^verbatim>\<open>solve\<close>.
\<close>

record process =
  sync_with_stdio :: bool
  cin_tie :: bool
  cout_tie :: bool
  stdin_from :: target
  stdout_to :: target
  stderr_to :: target
  cout_written :: string
  cerr_written :: string
  solve_calls :: nat

definition startup :: process where
  "startup = \<lparr>sync_with_stdio = True, cin_tie = True, cout_tie = False,
     stdin_from = Console, stdout_to = Console, stderr_to = Console,
     cout_written = [], cerr_written = [], solve_calls = 0\<rparr>"

text \<open>
  \<^verbatim>\<open>#define debug(x) cerr << #x << " = "; _print(x); cerr << endl;\<close> without
  \<^verbatim>\<open>ONLINE_JUDGE\<close>, and \<^verbatim>\<open>#define debug(x)\<close> with it (lines 41 to 45).

  The argument of the macro is an expression: its spelling, which \<^verbatim>\<open>#x\<close> turns into a
  string, and its evaluation, which yields a value and may change the process. The
  expansion is a list of statements. Line 16 defines \<^verbatim>\<open>endl\<close> as the newline character.
\<close>

type_synonym expr = "process \<Rightarrow> val \<times> process"

datatype stmt = Cerr "string list" | CallPrint expr

definition endl :: string where
  "endl = [CHR 0x0A]"

definition debug :: "build \<Rightarrow> string \<Rightarrow> expr \<Rightarrow> stmt list" where
  "debug bld spelling x =
     (case bld of
        Local \<Rightarrow> [Cerr [spelling, '' = ''], CallPrint x, Cerr [endl]]
      | OnlineJudge \<Rightarrow> [])"

fun exec :: "stmt \<Rightarrow> process \<Rightarrow> process" where
  "exec (Cerr ss) p = p\<lparr>cerr_written := cerr_written p @ concat ss\<rparr>"
| "exec (CallPrint x) p =
     (case x p of (v, p') \<Rightarrow> p'\<lparr>cerr_written := cerr_written p' @ print_cerr v\<rparr>)"

fun exec_all :: "stmt list \<Rightarrow> process \<Rightarrow> process" where
  "exec_all [] p = p"
| "exec_all (s # ss) p = exec_all ss (exec s p)"

subsection \<open>randInt (lines 82 to 85)\<close>

text \<open>
  \<^verbatim>\<open>int randInt(int l, int r) { return uniform_int_distribution<int>(l, r)(rng); }\<close>

  \<^verbatim>\<open>rng\<close> is the global \<^verbatim>\<open>mt19937\<close> of line 82; a draw reads and advances it, so the
  generator goes in and comes out. The distribution and the generator belong to the C++
  standard library, which is not part of the repository: the call
  \<^verbatim>\<open>uniform_int_distribution<int>(l, r)(rng)\<close> is the parameter
  \<open>uniform_int_distribution\<close>, and \<open>'g\<close> is the type of the generator's state. Both
  bounds and the result are \<^verbatim>\<open>long long\<close>, so nothing is narrowed on the way.
\<close>

definition randInt :: "(ll \<Rightarrow> ll \<Rightarrow> 'g \<Rightarrow> ll \<times> 'g) \<Rightarrow> ll \<Rightarrow> ll \<Rightarrow> 'g \<Rightarrow> ll \<times> 'g" where
  "randInt uniform_int_distribution l r rng = uniform_int_distribution l r rng"

subsection \<open>solve and main (lines 97 to 118)\<close>

text \<open>\<^verbatim>\<open>void solve() { }\<close>: the body is empty.\<close>

definition solve :: "process \<Rightarrow> process" where
  "solve p = p"

text \<open>A call of \<^verbatim>\<open>solve\<close>: the model's counter records it, then the body runs.\<close>

definition call_solve :: "process \<Rightarrow> process" where
  "call_solve p = solve (p\<lparr>solve_calls := Suc (solve_calls p)\<rparr>)"

text \<open>
  \<^verbatim>\<open>freopen(path, mode, stream)\<close>: the stream is attached to the file when the file can
  be opened in that mode, which the environment \<open>can_open\<close> decides, and closed when
  not.
\<close>

definition freopen :: "(string \<Rightarrow> string \<Rightarrow> bool) \<Rightarrow> string \<Rightarrow> string \<Rightarrow> target" where
  "freopen can_open path mode = (if can_open path mode then File path else Closed)"

text \<open>
  \<^verbatim>\<open>while (t--) solve();\<close> The condition tests the value \<open>t\<close> had and then decrements
  it, also on the last test, so the loop leaves \<open>t - 1\<close> behind. The measure is \<open>t\<close>
  read as unsigned.
\<close>

function while_solve :: "ll \<Rightarrow> process \<Rightarrow> ll \<times> process" where
  "while_solve t p = (if t \<noteq> 0 then while_solve (t - 1) (call_solve p) else (t - 1, p))"
  by pat_completeness auto
termination
proof (relation "measure (\<lambda>(t, p). unat t)")
  show "wf (measure (\<lambda>(t, p). unat t))" by simp
next
  fix t :: ll and p :: process
  assume "t \<noteq> 0"
  then have "unat (t - 1) < unat t"
    by (simp add: unat_minus_one unat_gt_0)
  then show "((t - 1, call_solve p), (t, p)) \<in> measure (\<lambda>(t, p). unat t)" by simp
qed

declare while_solve.simps [simp del]

text \<open>
  \<^verbatim>\<open>int32_t main()\<close> (lines 102 to 118): the three stream settings, the three
  \<^verbatim>\<open>freopen\<close> calls of a local build, \<^verbatim>\<open>int t = 1;\<close> with the read of \<open>t\<close> commented
  out, the loop, and \<^verbatim>\<open>return 0;\<close>. The result is the exit status and the final
  process.
\<close>

definition main :: "build \<Rightarrow> (string \<Rightarrow> string \<Rightarrow> bool) \<Rightarrow> process \<Rightarrow> 32 word \<times> process" where
  "main bld can_open p0 =
     (let p1 = p0\<lparr>sync_with_stdio := False\<rparr>;
          p2 = p1\<lparr>cin_tie := False\<rparr>;
          p3 = p2\<lparr>cout_tie := False\<rparr>;
          p4 = (case bld of
                  Local \<Rightarrow>
                    (let q1 = p3\<lparr>stdin_from := freopen can_open ''input.txt'' ''r''\<rparr>;
                         q2 = q1\<lparr>stdout_to := freopen can_open ''output.txt'' ''w''\<rparr>
                     in q2\<lparr>stderr_to := freopen can_open ''debug.txt'' ''w''\<rparr>)
                | OnlineJudge \<Rightarrow> p3);
          t = 1
      in case while_solve t p4 of (t', p5) \<Rightarrow> (0, p5))"

section \<open>Properties\<close>

subsection \<open>Signed 64-bit arithmetic\<close>

lemma sint_ll_of_int: "- (2 ^ 63) \<le> k \<Longrightarrow> k < 2 ^ 63 \<Longrightarrow> sint (word_of_int k :: ll) = k"
  by (simp add: signed_of_int signed_take_bit_int_eq_self)

lemma sint_ll_bounds: "- (2 ^ 63) \<le> sint (x :: ll)" "sint (x :: ll) < 2 ^ 63"
  using sint_ge [of x] sint_lt [of x] by simp_all

lemma LLONG_MIN_sint: "sint LLONG_MIN = - (2 ^ 63)"
  by (simp add: LLONG_MIN_def)

lemma pos_sint: "0 <s (a::ll) \<Longrightarrow> 0 < sint a" "0 \<le>s (a::ll) \<Longrightarrow> 0 \<le> sint a"
  by (simp_all add: word_sless_alt word_sle_eq)

lemma sint_rem_abs:
  assumes "ll_rem a b = Inr m"
  shows "\<bar>sint m\<bar> < \<bar>sint b\<bar>"
proof -
  from assms have b: "b \<noteq> 0" and m: "m = word_of_int (sint a smod sint b)"
    by (auto simp: ll_rem_def split: if_splits)
  have rng: "sint a smod sint b \<in> {- \<bar>sint b\<bar> + 1..\<bar>sint b\<bar> - 1}"
    by (rule smod_int_range) (use b in \<open>simp add: signed_eq_0_iff\<close>)
  with sint_ll_bounds [of b]
  have "- (2 ^ 63) \<le> sint a smod sint b" "sint a smod sint b < 2 ^ 63" by auto
  then have "sint m = sint a smod sint b" unfolding m by (rule sint_ll_of_int)
  with rng show ?thesis by auto
qed

text \<open>On a non-negative dividend and a positive divisor \<^verbatim>\<open>%\<close> is the mathematical \<open>mod\<close>.\<close>

lemma ll_rem_nonneg:
  assumes "0 \<le> sint a" "0 < sint b"
  shows "ll_rem a b = Inr (word_of_int (sint a mod sint b))"
    and "sint (word_of_int (sint a mod sint b) :: ll) = sint a mod sint b"
proof -
  have b0: "b \<noteq> 0" using assms(2) by auto
  have amin: "a \<noteq> LLONG_MIN" using assms(1) LLONG_MIN_sint by auto
  have "sint a smod sint b = sint a mod sint b"
    using assms by (simp add: signed_modulo_int_def sgn_if)
  then show "ll_rem a b = Inr (word_of_int (sint a mod sint b))"
    using b0 amin by (simp add: ll_rem_def)
  have "0 \<le> sint a mod sint b" "sint a mod sint b < sint b" using assms by simp_all
  then show "sint (word_of_int (sint a mod sint b) :: ll) = sint a mod sint b"
    using sint_ll_bounds [of b] by (intro sint_ll_of_int) linarith+
qed

subsection \<open>gcd\<close>

lemma gcd_ll_0: "gcd_ll a 0 = Inr a"
  by (simp add: gcd_ll.simps [of a 0])

lemma gcd_ll_rec:
  "b \<noteq> 0 \<Longrightarrow> gcd_ll a b = (case ll_rem a b of Inl e \<Rightarrow> Inl e | Inr m \<Rightarrow> gcd_ll b m)"
  by (simp add: gcd_ll.simps [of a b])

text \<open>On non-negative arguments the function computes the greatest common divisor.\<close>

lemma gcd_ll_nonneg:
  "0 \<le> sint a \<Longrightarrow> 0 \<le> sint b \<Longrightarrow> gcd_ll a b = Inr (word_of_int (gcd (sint a) (sint b)))"
proof (induction a b rule: gcd_ll.induct)
  case (1 a b)
  show ?case
  proof (cases "b = 0")
    case True
    then show ?thesis using "1.prems" by (simp add: gcd_ll_0)
  next
    case False
    then have bpos: "0 < sint b"
      using "1.prems"(2) by (simp add: order_less_le signed_eq_0_iff)
    let ?m = "word_of_int (sint a mod sint b) :: ll"
    have rem: "ll_rem a b = Inr ?m" and sm: "sint ?m = sint a mod sint b"
      using ll_rem_nonneg [OF "1.prems"(1) bpos] by simp_all
    have "gcd_ll b ?m = Inr (word_of_int (gcd (sint b) (sint ?m)))"
      using "1.IH" [OF False rem] "1.prems"(2) sm bpos by simp
    moreover have "gcd (sint b) (sint a mod sint b) = gcd (sint a) (sint b)"
      by (metis gcd_red_int)
    ultimately show ?thesis using False rem sm by (simp add: gcd_ll_rec)
  qed
qed

lemma gcd_int_range:
  assumes "0 \<le> sint (a::ll)" "0 < sint (b::ll)"
  shows "0 < gcd (sint a) (sint b)" "gcd (sint a) (sint b) \<le> sint b"
    "gcd (sint a) (sint b) < 2 ^ 63"
proof -
  show "0 < gcd (sint a) (sint b)" using assms by (simp add: gcd_pos_int)
  show le: "gcd (sint a) (sint b) \<le> sint b" using assms by (simp add: gcd_le2_int)
  show "gcd (sint a) (sint b) < 2 ^ 63" using le sint_ll_bounds(2) [of b] by linarith
qed

lemma gcd_fuel_enough:
  "nat \<bar>sint b\<bar> < n \<Longrightarrow> gcd_fuel n a b = Some (gcd_ll a b)"
proof (induction n arbitrary: a b)
  case 0
  then show ?case by simp
next
  case (Suc n)
  show ?case
  proof (cases "b = 0")
    case True
    then show ?thesis by (simp add: gcd_ll_0)
  next
    case False
    show ?thesis
    proof (cases "ll_rem a b")
      case (Inl e)
      then show ?thesis using False by (simp add: gcd_ll_rec)
    next
      case (Inr m)
      have "\<bar>sint m\<bar> < \<bar>sint b\<bar>" by (rule sint_rem_abs [OF Inr])
      then have "nat \<bar>sint m\<bar> < n" using Suc.prems by linarith
      then have "gcd_fuel n b m = Some (gcd_ll b m)" by (rule Suc.IH)
      then show ?thesis using False Inr by (simp add: gcd_ll_rec)
    qed
  qed
qed

text \<open>
  Claim C3. For non-negative \<open>a\<close> and \<open>b\<close>, \<open>gcd(a, 0)\<close> is \<open>a\<close>, and for \<open>b\<close> other than
  zero \<open>gcd(a, b)\<close> equals \<open>gcd(b, a mod b)\<close>, where \<open>mod\<close> is the mathematical one (the
  code's \<^verbatim>\<open>%\<close> agrees with it on these arguments).
\<close>

theorem gcd_ll_euclid:
  assumes "0 \<le>s a" and "0 \<le>s b"
  shows "gcd_ll a 0 = Inr a \<and>
         (b \<noteq> 0 \<longrightarrow> gcd_ll a b = gcd_ll b (word_of_int (sint a mod sint b)))"
proof -
  have "gcd_ll a b = gcd_ll b (word_of_int (sint a mod sint b))" if "b \<noteq> 0"
  proof -
    have "0 < sint b"
      using that pos_sint(2) [OF assms(2)] by (simp add: order_less_le signed_eq_0_iff)
    then have "ll_rem a b = Inr (word_of_int (sint a mod sint b))"
      using ll_rem_nonneg(1) pos_sint(2) [OF assms(1)] by blast
    then show ?thesis using that by (simp add: gcd_ll_rec)
  qed
  moreover have "gcd_ll a 0 = Inr a" by (rule gcd_ll_0)
  ultimately show ?thesis by blast
qed

theorem gcd_ll_euclid_witness:
  "(0::ll) \<le>s 12 \<and> (0::ll) \<le>s 18 \<and> gcd_ll 12 0 = Inr 12 \<and>
   gcd_ll 12 18 = gcd_ll 18 12 \<and> gcd_ll 12 18 = Inr 6"
proof -
  have h: "(0::ll) \<le>s 12" "(0::ll) \<le>s 18" by (simp_all add: word_sle_eq)
  have e: "gcd_ll 12 18 = Inr 6"
    by (simp add: gcd_ll.simps ll_rem_def LLONG_MIN_def signed_modulo_int_def)
  show ?thesis using h e gcd_ll_euclid [OF h] by simp
qed

text \<open>
  Claim C9. For non-negative \<open>a\<close> and \<open>b\<close> the recursion of \<open>gcd\<close> ends: when \<open>b\<close> is
  not zero the remainder \<open>a % b\<close> is computed without fault, is non-negative and is
  strictly below \<open>b\<close>, so the second argument decreases; and the evaluation with a bound
  of \<open>b + 1\<close> on the depth returns a value, the one of \<open>gcd_ll\<close>.
\<close>

theorem gcd_ll_terminates:
  assumes "0 \<le>s a" and "0 \<le>s b"
  shows "(b \<noteq> 0 \<longrightarrow> (\<exists>m. ll_rem a b = Inr m \<and> 0 \<le>s m \<and> m <s b)) \<and>
         (\<exists>y. gcd_ll a b = Inr y \<and> gcd_fuel (Suc (nat (sint b))) a b = Some (Inr y))"
proof -
  have na: "0 \<le> sint a" and nb: "0 \<le> sint b" using assms pos_sint(2) by blast+
  have "\<exists>m. ll_rem a b = Inr m \<and> 0 \<le>s m \<and> m <s b" if "b \<noteq> 0"
  proof -
    have pb: "0 < sint b" using that nb by (simp add: order_less_le signed_eq_0_iff)
    let ?m = "word_of_int (sint a mod sint b) :: ll"
    have "ll_rem a b = Inr ?m" and sm: "sint ?m = sint a mod sint b"
      using ll_rem_nonneg [OF na pb] by simp_all
    moreover have "0 \<le>s ?m" "?m <s b"
      using sm pb by (simp_all add: word_sle_eq word_sless_alt)
    ultimately show ?thesis by blast
  qed
  moreover have "gcd_fuel (Suc (nat (sint b))) a b = Some (gcd_ll a b)"
    by (rule gcd_fuel_enough) (use nb in simp)
  moreover have "gcd_ll a b = Inr (word_of_int (gcd (sint a) (sint b)))"
    by (rule gcd_ll_nonneg [OF na nb])
  ultimately show ?thesis by simp
qed

theorem gcd_ll_terminates_witness:
  "(0::ll) \<le>s 35 \<and> (0::ll) \<le>s 21 \<and>
   (\<exists>m. ll_rem 35 21 = Inr m \<and> 0 \<le>s m \<and> m <s 21) \<and>
   (\<exists>y. gcd_ll 35 21 = Inr y \<and> gcd_fuel 22 35 21 = Some (Inr y))"
proof -
  have h: "(0::ll) \<le>s 35" "(0::ll) \<le>s 21" by (simp_all add: word_sle_eq)
  have n: "Suc (nat (sint (21::ll))) = 22" by simp
  show ?thesis using h gcd_ll_terminates [OF h] unfolding n by simp
qed

subsection \<open>lcm\<close>

lemma ll_div_gcd:
  assumes "0 < sint (a::ll)" "0 < sint (b::ll)"
  defines "G \<equiv> gcd (sint a) (sint b)"
  shows "ll_div a (word_of_int G) = Inr (word_of_int (sint a div G))"
    and "sint (word_of_int (sint a div G) :: ll) = sint a div G"
    and "sint (word_of_int G :: ll) = G"
proof -
  have G: "0 < G" "G \<le> sint b" "G < 2 ^ 63"
    using gcd_int_range [of a b] assms by simp_all
  show sG: "sint (word_of_int G :: ll) = G"
    using G by (intro sint_ll_of_int) linarith+
  have g0: "(word_of_int G :: ll) \<noteq> 0"
    using sG G(1) by (metis less_irrefl sint_0)
  have gm1: "(word_of_int G :: ll) \<noteq> - 1"
    using sG G(1) by (metis less_minus_one_simps(1) not_less_iff_gr_or_eq sint_n1)
  have "sint a sdiv G = sint a div G"
    using assms(1) G(1) by (simp add: signed_divide_int_def sgn_if)
  then show "ll_div a (word_of_int G) = Inr (word_of_int (sint a div G))"
    using g0 gm1 sG by (simp add: ll_div_def)
  have "0 \<le> sint a div G" using assms(1) G(1) by (simp add: pos_imp_zdiv_nonneg_iff)
  moreover have "sint a div G \<le> sint a"
    using zdiv_mono2 [of "sint a" 1 G] assms(1) G(1) by simp
  ultimately show "sint (word_of_int (sint a div G) :: ll) = sint a div G"
    using sint_ll_bounds(2) [of a] by (intro sint_ll_of_int) linarith+
qed

lemma lcm_ll_pos:
  assumes "0 < sint (a::ll)" "0 < sint (b::ll)"
  shows "lcm_ll a b = Inr (word_of_int (sint a div gcd (sint a) (sint b)) * b)"
  using gcd_ll_nonneg [of a b] ll_div_gcd(1) [OF assms] assms
  by (simp add: lcm_ll_def)

lemma lcm_int_quotient:
  assumes "0 < (A::int)" "0 < (B::int)"
  shows "A div gcd A B * B = lcm A B" and "lcm A B = (A * B) div gcd A B"
    and "1 \<le> A div gcd A B" and "B \<le> lcm A B"
proof -
  have G: "0 < gcd A B" using assms by (simp add: gcd_pos_int)
  have "0 \<le> A * B div gcd A B"
    using assms G by (simp add: pos_imp_zdiv_nonneg_iff)
  then show n: "lcm A B = (A * B) div gcd A B"
    by (simp add: lcm_gcd)
  show q: "A div gcd A B * B = lcm A B"
    unfolding n by (simp add: dvd_div_mult)
  have "gcd A B \<le> A" using assms by (simp add: gcd_le1_int)
  then have "0 < A div gcd A B" using pos_imp_zdiv_pos_iff [OF G] by blast
  then show o: "1 \<le> A div gcd A B" by linarith
  have "1 * B \<le> A div gcd A B * B" using o assms(2) by (intro mult_right_mono) simp_all
  then show "B \<le> lcm A B" using q by simp
qed

lemma lcm_ll_exact:
  assumes "0 < sint (a::ll)" "0 < sint (b::ll)" "lcm (sint a) (sint b) < 2 ^ 63"
  shows "sint (word_of_int (sint a div gcd (sint a) (sint b)) * b) = lcm (sint a) (sint b)"
proof -
  let ?G = "gcd (sint a) (sint b)" and ?L = "lcm (sint a) (sint b)"
  let ?q = "word_of_int (sint a div ?G) :: ll"
  have "?q * b = word_of_int (sint a div ?G * sint b)" by simp
  then have "?q * b = word_of_int ?L"
    by (simp only: lcm_int_quotient(1) [OF assms(1,2)])
  moreover have "- (2 ^ 63) \<le> ?L"
    by (rule order_trans [of _ 0]) simp_all
  then have "sint (word_of_int ?L :: ll) = ?L" using assms(3) by (rule sint_ll_of_int)
  ultimately show ?thesis by (simp only:)
qed

text \<open>
  As machine values the two products always agree: for positive \<open>a\<close> and \<open>b\<close> both
  calls return without fault and \<open>lcm(a, b) * gcd(a, b)\<close> and \<open>a * b\<close> are the same
  64-bit word, that is, equal modulo \<open>2 ^ 64\<close>. This says nothing about the integers
  they stand for once a product has wrapped around.
\<close>

lemma lcm_ll_gcd_ll_wrapped:
  assumes "0 <s a" and "0 <s b"
  shows "\<exists>l g. lcm_ll a b = Inr l \<and> gcd_ll a b = Inr g \<and> l * g = a * b"
proof -
  let ?G = "gcd (sint a) (sint b)"
  have pa: "0 < sint a" and pb: "0 < sint b" using assms pos_sint(1) by blast+
  have g: "gcd_ll a b = Inr (word_of_int ?G)" using gcd_ll_nonneg [of a b] pa pb by simp
  have l: "lcm_ll a b = Inr (word_of_int (sint a div ?G) * b)" by (rule lcm_ll_pos [OF pa pb])
  have ex: "sint a div ?G * ?G = sint a" by simp
  have "(word_of_int (sint a div ?G) :: ll) * word_of_int ?G = word_of_int (sint a div ?G * ?G)"
    by (simp only: of_int_mult)
  also have "\<dots> = word_of_int (sint a)" by (simp only: ex)
  also have "\<dots> = a" by simp
  finally have "(word_of_int (sint a div ?G) :: ll) * word_of_int ?G = a" .
  then have "word_of_int (sint a div ?G) * b * (word_of_int ?G :: ll) = a * b"
    by (simp add: mult.assoc mult.left_commute mult.commute)
  then show ?thesis using g l by blast
qed

text \<open>
  Claim C4, as stated, for all positive \<open>a\<close> and \<open>b\<close>: it fails. The least common
  multiple of \<open>2 ^ 62\<close> and 6 is \<open>3 * 2 ^ 62\<close>, which 64 bits do not hold. The code
  returns \<open>gcd = 2\<close> and \<open>lcm = - (2 ^ 62)\<close>, so \<open>lcm * gcd\<close> is \<open>- (2 ^ 63)\<close>, while
  \<open>a * b\<close> is \<open>3 * 2 ^ 63\<close>.
\<close>

theorem lcm_ll_times_gcd_ll_counterexample:
  "(0::ll) <s 4611686018427387904 \<and> (0::ll) <s 6 \<and>
   lcm_ll 4611686018427387904 6 = Inr (- 4611686018427387904) \<and>
   gcd_ll 4611686018427387904 6 = Inr 2 \<and>
   sint (- 4611686018427387904 :: ll) * sint (2 :: ll) \<noteq>
     sint (4611686018427387904 :: ll) * sint (6 :: ll)"
proof -
  have h: "(0::ll) <s 4611686018427387904" "(0::ll) <s 6" by (simp_all add: word_sless_alt)
  have g: "gcd_ll 4611686018427387904 6 = Inr 2"
    by (simp add: gcd_ll.simps ll_rem_def LLONG_MIN_def signed_modulo_int_def)
  have l: "lcm_ll 4611686018427387904 6 = Inr (- 4611686018427387904)"
    by (simp add: lcm_ll_def g ll_div_def LLONG_MIN_def signed_divide_int_def)
  have n: "sint (- 4611686018427387904 :: ll) * sint (2 :: ll) \<noteq>
     sint (4611686018427387904 :: ll) * sint (6 :: ll)" by simp
  show ?thesis using h g l n by blast
qed

text \<open>
  Claim C4, amended: for all positive \<open>a\<close> and \<open>b\<close> whose least common multiple is
  below \<open>2 ^ 63\<close>, so that the result of \<open>lcm\<close> fits a 64-bit signed integer, both calls
  return without fault and \<open>lcm(a, b) * gcd(a, b) = a * b\<close> holds between the integers
  the values stand for. The product \<open>a * b\<close> itself need not fit.
\<close>

theorem lcm_ll_times_gcd_ll:
  assumes "0 <s a" and "0 <s b" and "lcm (sint a) (sint b) < 2 ^ 63"
  shows "\<exists>l g. lcm_ll a b = Inr l \<and> gcd_ll a b = Inr g \<and>
           sint l * sint g = sint a * sint b"
proof -
  let ?G = "gcd (sint a) (sint b)"
  have pa: "0 < sint a" and pb: "0 < sint b" using assms(1,2) pos_sint(1) by blast+
  have g: "gcd_ll a b = Inr (word_of_int ?G)" using gcd_ll_nonneg [of a b] pa pb by simp
  have l: "lcm_ll a b = Inr (word_of_int (sint a div ?G) * b)" by (rule lcm_ll_pos [OF pa pb])
  have ex: "sint a div ?G * ?G = sint a" by simp
  have "sint (word_of_int (sint a div ?G) * b) = sint a div ?G * sint b"
    using lcm_ll_exact [OF pa pb assms(3)] lcm_int_quotient(1) [OF pa pb] by simp
  moreover have "sint (word_of_int ?G :: ll) = ?G" by (rule ll_div_gcd(3) [OF pa pb])
  moreover have "sint a div ?G * sint b * ?G = sint a div ?G * ?G * sint b"
    by (simp only: ac_simps)
  ultimately have
    "sint (word_of_int (sint a div ?G) * b) * sint (word_of_int ?G :: ll) = sint a * sint b"
    by (simp only: ex)
  then show ?thesis using g l by blast
qed

theorem lcm_ll_times_gcd_ll_witness:
  "(0::ll) <s 4294967296 \<and> (0::ll) <s 8589934592 \<and>
   lcm (sint (4294967296::ll)) (sint (8589934592::ll)) < 2 ^ 63 \<and>
   (2::int) ^ 63 \<le> sint (4294967296::ll) * sint (8589934592::ll) \<and>
   lcm_ll 4294967296 8589934592 = Inr 8589934592 \<and>
   gcd_ll 4294967296 8589934592 = Inr 4294967296 \<and>
   sint (8589934592::ll) * sint (4294967296::ll) =
     sint (4294967296::ll) * sint (8589934592::ll) \<and>
   (\<exists>l g. lcm_ll 4294967296 8589934592 = Inr l \<and> gcd_ll 4294967296 8589934592 = Inr g \<and>
      sint l * sint g = sint (4294967296::ll) * sint (8589934592::ll))"
proof -
  have h: "(0::ll) <s 4294967296" "(0::ll) <s 8589934592"
    by (simp_all add: word_sless_alt)
  have f: "lcm (sint (4294967296::ll)) (sint (8589934592::ll)) < 2 ^ 63" by simp
  have g: "gcd_ll 4294967296 8589934592 = Inr 4294967296"
    by (simp add: gcd_ll.simps ll_rem_def LLONG_MIN_def signed_modulo_int_def)
  have l: "lcm_ll 4294967296 8589934592 = Inr 8589934592"
    by (simp add: lcm_ll_def g ll_div_def LLONG_MIN_def signed_divide_int_def)
  show ?thesis using h f g l lcm_ll_times_gcd_ll [OF h f] by simp
qed

text \<open>
  Claim C10. For positive \<open>a\<close> and \<open>b\<close>, \<open>lcm\<close> divides before it multiplies: the
  intermediate values, the divisor \<open>g = gcd(a, b)\<close> and the quotient \<open>q = a / g\<close>, are
  positive and at most the mathematical least common multiple, and the exact product
  \<open>q * b\<close> is that least common multiple, which is \<open>(a * b) div gcd a b\<close> in exact
  arithmetic. Whenever it is below \<open>2 ^ 63\<close> the value returned is exactly it, whether or
  not \<open>a * b\<close> fits 64 bits.
\<close>

theorem lcm_ll_divides_first:
  assumes "0 <s a" and "0 <s b"
  shows "\<exists>g q. gcd_ll a b = Inr g \<and> ll_div a g = Inr q \<and> lcm_ll a b = Inr (q * b) \<and>
           0 < sint g \<and> sint g \<le> lcm (sint a) (sint b) \<and>
           0 < sint q \<and> sint q \<le> lcm (sint a) (sint b) \<and>
           sint q * sint b = lcm (sint a) (sint b) \<and>
           lcm (sint a) (sint b) = (sint a * sint b) div gcd (sint a) (sint b) \<and>
           (lcm (sint a) (sint b) < 2 ^ 63 \<longrightarrow> sint (q * b) = lcm (sint a) (sint b))"
proof -
  let ?G = "gcd (sint a) (sint b)" and ?L = "lcm (sint a) (sint b)"
  let ?g = "word_of_int ?G :: ll" and ?q = "word_of_int (sint a div ?G) :: ll"
  have pa: "0 < sint a" and pb: "0 < sint b" using assms pos_sint(1) by blast+
  note d = ll_div_gcd [OF pa pb]
  note i = lcm_int_quotient [OF pa pb]
  have r: "0 < ?G" "?G \<le> sint b"
    using gcd_int_range [of a b] pa pb by simp_all
  have g: "gcd_ll a b = Inr ?g" using gcd_ll_nonneg [of a b] pa pb by simp
  have l: "lcm_ll a b = Inr (?q * b)" by (rule lcm_ll_pos [OF pa pb])
  have sg: "sint ?g = ?G" and sq: "sint ?q = sint a div ?G" by (rule d(3), rule d(2))
  have gpos: "0 < sint ?g" using r(1) sg by simp
  have gle: "sint ?g \<le> ?L" using r(2) i(4) sg by linarith
  have qpos: "0 < sint ?q" using i(3) sq by simp
  have prod: "sint ?q * sint b = ?L" using i(1) sq by simp
  have "sint ?q * 1 \<le> sint ?q * sint b" using qpos pb by (intro mult_left_mono) simp_all
  then have qle: "sint ?q \<le> ?L" using prod by simp
  have fits: "sint (?q * b) = ?L" if "?L < 2 ^ 63"
    using that by (rule lcm_ll_exact [OF pa pb])
  show ?thesis
    using g d(1) l gpos gle qpos qle prod i(2) fits by blast
qed

theorem lcm_ll_divides_first_witness:
  "(0::ll) <s 4294967296 \<and> (2::int) ^ 63 \<le> sint (4294967296::ll) * sint (4294967296::ll) \<and>
   lcm (sint (4294967296::ll)) (sint (4294967296::ll)) < 2 ^ 63 \<and>
   lcm_ll 4294967296 4294967296 = Inr 4294967296 \<and>
   (\<exists>g q. gcd_ll 4294967296 4294967296 = Inr g \<and> ll_div 4294967296 g = Inr q \<and>
      lcm_ll 4294967296 4294967296 = Inr (q * 4294967296) \<and>
      sint (q * 4294967296) = lcm (sint (4294967296::ll)) (sint (4294967296::ll)))"
proof -
  have h: "(0::ll) <s 4294967296" by (simp add: word_sless_alt)
  have g: "gcd_ll 4294967296 4294967296 = Inr 4294967296"
    by (simp add: gcd_ll.simps ll_rem_def LLONG_MIN_def signed_modulo_int_def)
  have l: "lcm_ll 4294967296 4294967296 = Inr 4294967296"
    by (simp add: lcm_ll_def g ll_div_def LLONG_MIN_def signed_divide_int_def)
  have f: "lcm (sint (4294967296::ll)) (sint (4294967296::ll)) < 2 ^ 63" by simp
  show ?thesis using h l f lcm_ll_divides_first [OF h h] by auto
qed

subsection \<open>The ordered set\<close>

text \<open>
  Two invariants carry the proofs: \<open>sized\<close>, every annotation is the true size of its
  subtree, and the strict order of the in-order traversal, which says that the tree is
  a search tree and that no key occurs twice. Building a node, rotating and recolouring
  keep the traversal and the first invariant.
\<close>

lemma metadata_sized: "sized t \<Longrightarrow> metadata t = length (inorder t)"
  by (cases t) simp_all

lemma inorder_node [simp]: "inorder (node c l k r) = inorder l @ k # inorder r"
  by (simp add: node_def)

lemma sized_node [simp]: "sized l \<Longrightarrow> sized r \<Longrightarrow> sized (node c l k r)"
  by (simp add: node_def metadata_sized)

lemma inorder_fix_left [simp]: "inorder (fix_left l k r) = inorder l @ k # inorder r"
  by (cases "(l, k, r)" rule: fix_left.cases) simp_all

lemma inorder_fix_right [simp]: "inorder (fix_right l k r) = inorder l @ k # inorder r"
  by (cases "(l, k, r)" rule: fix_right.cases) simp_all

lemma sized_fix_left [simp]: "sized l \<Longrightarrow> sized r \<Longrightarrow> sized (fix_left l k r)"
  by (cases "(l, k, r)" rule: fix_left.cases) simp_all

lemma sized_fix_right [simp]: "sized l \<Longrightarrow> sized r \<Longrightarrow> sized (fix_right l k r)"
  by (cases "(l, k, r)" rule: fix_right.cases) simp_all

lemma sized_insert_rec: "sized t \<Longrightarrow> sized (insert_rec e t)"
  by (induction e t rule: insert_rec.induct) simp_all

lemma set_insert_rec: "set (inorder (insert_rec e t)) = insert e (set (inorder t))"
  by (induction e t rule: insert_rec.induct) auto

lemma sorted_insert_rec:
  "sorted_wrt (<) (inorder t) \<Longrightarrow> sorted_wrt (<) (inorder (insert_rec e t))"
  by (induction e t rule: insert_rec.induct)
     (auto simp: sorted_wrt_append set_insert_rec)

lemma inorder_blacken [simp]: "inorder (blacken t) = inorder t"
  by (cases t) simp_all

lemma sized_blacken [simp]: "sized (blacken t) = sized t"
  by (cases t) simp_all

text \<open>
  What the two descents compute on a tree that satisfies the invariants: the rank of a
  key is the number of entries of the traversal below it, and selection is indexing
  into the traversal, with the end iterator for an order that is not below the size.
\<close>

lemma filter_less_all: "\<forall>x\<in>set xs. x < (k :: 'a::linorder) \<Longrightarrow> length (filter (\<lambda>x. x < k) xs) = length xs"
  by (induction xs) simp_all

lemma filter_less_none: "\<forall>x\<in>set xs. \<not> x < (k :: 'a::linorder) \<Longrightarrow> length (filter (\<lambda>x. x < k) xs) = 0"
  by (induction xs) simp_all

lemma order_of_key_inorder:
  "sized t \<Longrightarrow> sorted_wrt (<) (inorder t) \<Longrightarrow>
   order_of_key key t = length (filter (\<lambda>x. x < key) (inorder t))"
proof (induction t)
  case Null
  then show ?case by simp
next
  case (Node c l k n r)
  have sl: "sized l" and sr: "sized r" using Node.prems(1) by simp_all
  have ol: "sorted_wrt (<) (inorder l)" and or: "sorted_wrt (<) (inorder r)"
    and lk: "\<forall>x\<in>set (inorder l). x < k" and kr: "\<forall>y\<in>set (inorder r). k < y"
    using Node.prems(2) by (auto simp: sorted_wrt_append)
  note ml = metadata_sized [OF sl]
  consider (lt) "key < k" | (gt) "k < key" | (eq) "key = k" by (meson less_linear)
  then show ?case
  proof cases
    case lt
    have "\<forall>y\<in>set (inorder r). \<not> y < key" using kr lt by (meson less_trans less_asym)
    then show ?thesis using lt Node.IH(1) [OF sl ol] filter_less_none [of "inorder r" key]
      by simp
  next
    case gt
    have "\<forall>x\<in>set (inorder l). x < key" using lk gt by (meson less_trans)
    moreover have "\<not> key < k" using gt by simp
    ultimately show ?thesis
      using gt Node.IH(2) [OF sr or] filter_less_all [of "inorder l" key] ml
      by simp
  next
    case eq
    have "\<forall>y\<in>set (inorder r). \<not> y < key" using kr eq by (meson less_asym)
    moreover have "\<forall>x\<in>set (inorder l). x < key" using lk eq by simp
    ultimately show ?thesis
      using eq filter_less_all [of "inorder l" key] filter_less_none [of "inorder r" key] ml
      by simp
  qed
qed

lemma find_by_order_inorder:
  "sized t \<Longrightarrow>
   find_by_order ord t = (if ord < length (inorder t) then Some (inorder t ! ord) else None)"
proof (induction t arbitrary: ord)
  case Null
  then show ?case by simp
next
  case (Node c l k n r)
  have sl: "sized l" and sr: "sized r" using Node.prems by simp_all
  note ml = metadata_sized [OF sl]
  show ?case
    using Node.IH(1) [OF sl, of ord] Node.IH(2) [OF sr, of "ord - (length (inorder l) + 1)"]
    by (auto simp: ml nth_append)
qed

lemma rank_nth:
  "sorted_wrt (<) (xs :: 'a::linorder list) \<Longrightarrow> k < length xs \<Longrightarrow>
   length (filter (\<lambda>x. x < xs ! k) xs) = k"
proof (induction xs arbitrary: k)
  case Nil
  then show ?case by simp
next
  case (Cons a xs)
  have above: "\<forall>y\<in>set xs. a < y" and tl: "sorted_wrt (<) xs" using Cons.prems(1) by simp_all
  show ?case
  proof (cases k)
    case 0
    have "\<forall>y\<in>set xs. \<not> y < a" using above by (meson less_asym)
    then show ?thesis using 0 filter_less_none [of xs a] by simp
  next
    case (Suc j)
    then have j: "j < length xs" using Cons.prems(2) by simp
    then have "a < xs ! j" using above by simp
    then show ?thesis using Suc Cons.IH [OF tl j] by simp
  qed
qed

text \<open>
  Insertion keeps both invariants and adds the key to the set of elements, so the
  traversal after any sequence of insertions is the sorted list of the distinct values.
\<close>

lemma insert_key_invariants:
  assumes "sized s" "sorted_wrt (<) (inorder s)"
  shows "sized (insert_key e s)" "sorted_wrt (<) (inorder (insert_key e s))"
    "set (inorder (insert_key e s)) = insert e (set (inorder s))"
  using assms by (simp_all add: insert_key_def sized_insert_rec sorted_insert_rec set_insert_rec)

lemma insert_all_invariants:
  "sized s \<Longrightarrow> sorted_wrt (<) (inorder s) \<Longrightarrow>
   sized (insert_all es s) \<and> sorted_wrt (<) (inorder (insert_all es s)) \<and>
   set (inorder (insert_all es s)) = set es \<union> set (inorder s)"
proof (induction es arbitrary: s)
  case Nil
  then show ?case by simp
next
  case (Cons e es)
  show ?case
    using Cons.IH [OF insert_key_invariants(1,2) [OF Cons.prems, of e]]
      insert_key_invariants(3) [OF Cons.prems, of e]
    by auto
qed

lemma inorder_insert_all:
  "inorder (insert_all es Null) = sorted_list_of_set (set es)"
proof -
  let ?xs = "inorder (insert_all es Null)"
  have inv: "sorted_wrt (<) ?xs" "set ?xs = set es"
    using insert_all_invariants [of Null es] by simp_all
  have "sorted ?xs" "distinct ?xs"
    using inv(1) by (simp_all add: strict_sorted_iff)
  then have "sorted_list_of_set (set ?xs) = ?xs"
    by (rule sorted_list_of_set.idem_if_sorted_distinct)
  then show ?thesis using inv(2) by simp
qed

text \<open>
  Claim C1. After the elements of any sequence \<open>es\<close> have been inserted into an empty
  ordered set, \<open>order_of_key e\<close> is the number of inserted elements strictly less than
  \<open>e\<close>: for each inserted \<open>e\<close>, and for any other key as well. The elements of a set
  are counted once, however often they were inserted.
\<close>

theorem order_of_key_counts_smaller:
  "order_of_key e (insert_all es Null) = card {x \<in> set es. x < e}"
proof -
  let ?t = "insert_all es Null"
  have inv: "sized ?t" "sorted_wrt (<) (inorder ?t)" "set (inorder ?t) = set es"
    using insert_all_invariants [of Null es] by simp_all
  have "distinct (inorder ?t)" using inv(2) by (simp add: strict_sorted_iff)
  then have "distinct (filter (\<lambda>x. x < e) (inorder ?t))" by simp
  then have "length (filter (\<lambda>x. x < e) (inorder ?t)) = card (set (filter (\<lambda>x. x < e) (inorder ?t)))"
    by (rule distinct_card [symmetric])
  also have "set (filter (\<lambda>x. x < e) (inorder ?t)) = {x \<in> set es. x < e}"
    using inv(3) by auto
  finally show ?thesis using order_of_key_inorder [OF inv(1,2), of e] by simp
qed

theorem order_of_key_counts_smaller_witness:
  "order_of_key (5::int) (insert_all [5, 1, 3, 1, 9] Null) = 2 \<and>
   card {x \<in> set [5, 1, 3, 1, 9]. x < (5::int)} = 2"
proof -
  have "order_of_key (5::int) (insert_all [5, 1, 3, 1, 9] Null) = 2"
    by (simp add: insert_key_def node_def)
  then show ?thesis
    using order_of_key_counts_smaller [of "5::int" "[5, 1, 3, 1, 9]"] by simp
qed

text \<open>
  Claim C2. After the elements of \<open>es\<close> have been inserted into an empty ordered set,
  \<open>find_by_order k\<close> for every \<open>k\<close> below the size (the number of distinct elements)
  is the \<open>(k+1)\<close>-th smallest distinct inserted value, which is entry \<open>k\<close> of the
  sorted list of the distinct values; and the two queries are inverse to each other:
  \<open>find_by_order (order_of_key e)\<close> is \<open>e\<close> for every element \<open>e\<close> of the set, and
  \<open>order_of_key\<close> of the element that \<open>find_by_order k\<close> returns is \<open>k\<close>.
\<close>

theorem find_by_order_selects:
  "(\<forall>k < card (set es).
      find_by_order k (insert_all es Null) = Some (sorted_list_of_set (set es) ! k)) \<and>
   (\<forall>e \<in> set es.
      find_by_order (order_of_key e (insert_all es Null)) (insert_all es Null) = Some e) \<and>
   (\<forall>k < card (set es). \<forall>e.
      find_by_order k (insert_all es Null) = Some e \<longrightarrow> order_of_key e (insert_all es Null) = k)"
proof -
  let ?t = "insert_all es Null" and ?xs = "sorted_list_of_set (set es)"
  have inv: "sized ?t" "sorted_wrt (<) (inorder ?t)"
    using insert_all_invariants [of Null es] by simp_all
  have io: "inorder ?t = ?xs" by (rule inorder_insert_all)
  have len: "length ?xs = card (set es)" by simp
  have sel: "find_by_order k ?t = (if k < card (set es) then Some (?xs ! k) else None)" for k
    using find_by_order_inorder [OF inv(1), of k] io len by simp
  have rank: "order_of_key e ?t = length (filter (\<lambda>x. x < e) ?xs)" for e
    using order_of_key_inorder [OF inv, of e] io by simp
  have srt: "sorted_wrt (<) ?xs" using inv(2) io by simp
  have pos: "order_of_key (?xs ! k) ?t = k" if "k < card (set es)" for k
    using rank_nth [OF srt, of k] that rank len by simp
  have one: "\<forall>k < card (set es). find_by_order k ?t = Some (?xs ! k)"
    using sel by simp
  have two: "\<forall>e \<in> set es. find_by_order (order_of_key e ?t) ?t = Some e"
  proof
    fix e assume "e \<in> set es"
    then have "e \<in> set ?xs" by simp
    then obtain i where i: "i < length ?xs" "?xs ! i = e" by (meson in_set_conv_nth)
    then have "order_of_key e ?t = i" using pos [of i] len by simp
    then show "find_by_order (order_of_key e ?t) ?t = Some e" using sel [of i] i len by simp
  qed
  have three: "\<forall>k < card (set es). \<forall>e.
      find_by_order k ?t = Some e \<longrightarrow> order_of_key e ?t = k"
    using sel pos by simp
  show ?thesis using one two three by blast
qed

theorem find_by_order_selects_witness:
  "(1::nat) < card (set [5, 1, 3, 1, 9 :: int]) \<and> (5::int) \<in> set [5, 1, 3, 1, 9] \<and>
   find_by_order 1 (insert_all [5, 1, 3, 1, 9 :: int] Null) = Some 3 \<and>
   sorted_list_of_set (set [5, 1, 3, 1, 9 :: int]) ! 1 = 3 \<and>
   find_by_order (order_of_key 5 (insert_all [5, 1, 3, 1, 9 :: int] Null))
     (insert_all [5, 1, 3, 1, 9 :: int] Null) = Some 5 \<and>
   order_of_key (3::int) (insert_all [5, 1, 3, 1, 9] Null) = 1"
proof -
  let ?es = "[5, 1, 3, 1, 9 :: int]"
  have k: "(1::nat) < card (set ?es)" by (simp add: card_insert_if)
  have e: "(5::int) \<in> set ?es" by simp
  have f: "find_by_order 1 (insert_all ?es Null) = Some 3"
    by (simp add: insert_key_def node_def)
  note both = find_by_order_selects [of ?es]
  from both k have a: "find_by_order 1 (insert_all ?es Null) = Some (sorted_list_of_set (set ?es) ! 1)"
    by blast
  from both e have b: "find_by_order (order_of_key 5 (insert_all ?es Null)) (insert_all ?es Null) = Some 5"
    by blast
  from both k f have c: "order_of_key 3 (insert_all ?es Null) = 1"
    by blast
  from a f have d: "sorted_list_of_set (set ?es) ! 1 = 3" by simp
  show ?thesis using k e f d b c by blast
qed

subsection \<open>The debug macro, solve and main\<close>

text \<open>
  The loop enters \<open>solve\<close> as often as the counter \<open>t\<close> says (read as unsigned), which
  is what reading \<open>t\<close> from the input would make use of, and writes nothing itself.
\<close>

lemma while_solve_0: "while_solve 0 p = (- 1, p)"
  by (simp add: while_solve.simps [of 0 p])

lemma while_solve_rec: "t \<noteq> 0 \<Longrightarrow> while_solve t p = while_solve (t - 1) (call_solve p)"
  by (simp add: while_solve.simps [of t p])

lemma call_solve_fields:
  "solve_calls (call_solve p) = Suc (solve_calls p)"
  "cout_written (call_solve p) = cout_written p"
  "cerr_written (call_solve p) = cerr_written p"
  by (simp_all add: call_solve_def solve_def)

lemma while_solve_count:
  "solve_calls (snd (while_solve t p)) = solve_calls p + unat t"
proof (induction t p rule: while_solve.induct)
  case (1 t p)
  show ?case
  proof (cases "t = 0")
    case True
    then show ?thesis by (simp add: while_solve_0)
  next
    case False
    then have "Suc (unat (t - 1)) = unat t"
      by (simp add: unat_minus_one unat_gt_0)
    then show ?thesis using False "1.IH" [OF False]
      by (simp add: while_solve_rec call_solve_fields)
  qed
qed

lemma while_solve_output:
  "cout_written (snd (while_solve t p)) = cout_written p \<and>
   cerr_written (snd (while_solve t p)) = cerr_written p"
proof (induction t p rule: while_solve.induct)
  case (1 t p)
  show ?case
  proof (cases "t = 0")
    case True
    then show ?thesis by (simp add: while_solve_0)
  next
    case False
    then show ?thesis using "1.IH" [OF False]
      by (simp add: while_solve_rec call_solve_fields)
  qed
qed

text \<open>
  Claim C6. On every run, whatever the build, the files that can be opened and the
  state at entry, \<open>main\<close> enters \<open>solve\<close> exactly once: the counter of calls is one
  more at the end than at the start.
\<close>

theorem main_calls_solve_once:
  "solve_calls (snd (main bld can_open p)) = Suc (solve_calls p)"
  by (cases bld) (simp_all add: main_def Let_def case_prod_beta while_solve_count)

text \<open>
  Claim C7. \<open>main\<close> returns on every input, and the status it returns is 0, whatever the
  build, the files that can be opened and the state at entry; with the empty \<open>solve\<close>
  it writes nothing to standard output or standard error, so a run from the state at
  program start ends with both still empty.
\<close>

theorem main_exit_status:
  "fst (main bld can_open p) = 0 \<and>
   cout_written (snd (main bld can_open p)) = cout_written p \<and>
   cerr_written (snd (main bld can_open p)) = cerr_written p \<and>
   cout_written (snd (main bld can_open startup)) = [] \<and>
   cerr_written (snd (main bld can_open startup)) = []"
  by (cases bld)
     (simp_all add: main_def Let_def case_prod_beta while_solve_output startup_def)

text \<open>
  Claim C8. In a build with \<open>ONLINE_JUDGE\<close> defined the expansion of \<open>debug(x)\<close> is
  empty for every argument: there is no statement in it, so the argument is not
  evaluated, and running it leaves the whole process, the error stream included, as it
  was.
\<close>

theorem debug_online_judge_empty:
  "debug OnlineJudge spelling x = [] \<and> exec_all (debug OnlineJudge spelling x) p = p"
  by (simp add: debug_def)

text \<open>For comparison, the local build evaluates the argument once and writes a line.\<close>

lemma debug_local_writes:
  "cerr_written (exec_all (debug Local spelling x) p) =
     cerr_written (snd (x (p\<lparr>cerr_written := cerr_written p @ spelling @ '' = ''\<rparr>))) @
     print_cerr (fst (x (p\<lparr>cerr_written := cerr_written p @ spelling @ '' = ''\<rparr>))) @ endl"
  by (simp add: debug_def case_prod_beta)

subsection \<open>randInt\<close>

text \<open>
  Claim C5, as stated, for every call: it cannot hold. When \<open>l\<close> is above \<open>r\<close> no
  value lies between them, so whatever the library's distribution returns for the
  bounds 1 and 0, the result is not in range; no distribution makes the claim true.
\<close>

theorem randInt_range_counterexample:
  "\<not> (\<exists>uid :: ll \<Rightarrow> ll \<Rightarrow> nat \<Rightarrow> ll \<times> nat.
        \<forall>l r rng. l \<le>s fst (randInt uid l r rng) \<and> fst (randInt uid l r rng) \<le>s r)"
proof
  assume "\<exists>uid :: ll \<Rightarrow> ll \<Rightarrow> nat \<Rightarrow> ll \<times> nat.
            \<forall>l r rng. l \<le>s fst (randInt uid l r rng) \<and> fst (randInt uid l r rng) \<le>s r"
  then obtain uid :: "ll \<Rightarrow> ll \<Rightarrow> nat \<Rightarrow> ll \<times> nat"
    where "\<forall>l r rng. l \<le>s fst (randInt uid l r rng) \<and> fst (randInt uid l r rng) \<le>s r"
    by blast
  then have "1 \<le>s fst (randInt uid 1 0 0) \<and> fst (randInt uid 1 0 0) \<le>s 0"
    by blast
  then have "(1::int) \<le> sint (fst (randInt uid 1 0 0)) \<and> sint (fst (randInt uid 1 0 0)) \<le> 0"
    by (simp add: word_sle_eq)
  then show False by linarith
qed

text \<open>
  Claim C5, amended: for every call \<open>randInt(l, r)\<close> with \<open>l \<le> r\<close> the returned value
  \<open>v\<close> satisfies \<open>l \<le> v \<le> r\<close>, given that the library's distribution keeps its contract:
  constructed with bounds \<open>a \<le> b\<close> it returns a value within them. \<open>randInt\<close> passes
  its bounds on unchanged and in order, and returns the draw unchanged.
\<close>

theorem randInt_in_range:
  assumes "\<forall>a b g. a \<le>s b \<longrightarrow> a \<le>s fst (uid a b g) \<and> fst (uid a b g) \<le>s b"
    and "l \<le>s r"
  shows "l \<le>s fst (randInt uid l r rng) \<and> fst (randInt uid l r rng) \<le>s r"
  using assms by (simp add: randInt_def)

theorem randInt_in_range_witness:
  "(3::ll) \<le>s 7 \<and>
   (3::ll) \<le>s fst (randInt (\<lambda>a b (g::nat). (if even g then a else b, Suc g)) 3 7 1) \<and>
   fst (randInt (\<lambda>a b (g::nat). (if even g then a else b, Suc g)) 3 7 1) \<le>s 7"
proof -
  let ?uid = "\<lambda>(a::ll) (b::ll) (g::nat). (if even g then a else b, Suc g)"
  have c: "\<forall>a b g. a \<le>s b \<longrightarrow> a \<le>s fst (?uid a b g) \<and> fst (?uid a b g) \<le>s b"
    by simp
  have h: "(3::ll) \<le>s 7" by (simp add: word_sle_eq)
  show ?thesis using h randInt_in_range [OF c h, of 1] by blast
qed

end
